theory Spec2Isabelle
  imports Main "HOL-Library.Sublist"
begin

section \<open>Strings and character classes\<close>

text \<open>
  A JavaScript string is modelled as a \<^typ>\<open>string\<close>: the sequence of its code units,
  each taken from the first 256 code points (ASCII and Latin-1). \<open>length\<close> is then the
  \<open>.length\<close> of the source. The character classes below are the ones the regular
  expressions of the source use, read on that range.
\<close>

definition is_digit :: "char \<Rightarrow> bool" where
  \<comment> \<open>\<open>\d\<close> and \<open>[0-9]\<close>\<close>
  "is_digit c = (c \<in> set ''0123456789'')"

definition is_lower :: "char \<Rightarrow> bool" where
  \<comment> \<open>\<open>[a-z]\<close>\<close>
  "is_lower c = (c \<in> set ''abcdefghijklmnopqrstuvwxyz'')"

definition is_upper :: "char \<Rightarrow> bool" where
  \<comment> \<open>\<open>[A-Z]\<close>\<close>
  "is_upper c = (c \<in> set ''ABCDEFGHIJKLMNOPQRSTUVWXYZ'')"

definition is_space :: "char \<Rightarrow> bool" where
  \<comment> \<open>\<open>\s\<close>: tab, line feed, vertical tab, form feed, carriage return, space, no-break space\<close>
  "is_space c = (c \<in> set [CHR 0x09, CHR 0x0A, CHR 0x0B, CHR 0x0C, CHR 0x0D, CHR '' '', CHR 0xA0])"

definition is_word :: "char \<Rightarrow> bool" where
  \<comment> \<open>\<open>\w\<close>, the class that \<open>\b\<close> looks at\<close>
  "is_word c = (is_lower c \<or> is_upper c \<or> is_digit c \<or> c = CHR ''_'')"

definition newline :: char where
  "newline = CHR 0x0A"

definition toLowerCase_char :: "char \<Rightarrow> char" where
  \<comment> \<open>\<open>A-Z\<close> and the Latin-1 capitals \<open>0xC0-0xDE\<close> (without the multiplication sign \<open>0xD7\<close>)
      move up by 32; every other code unit below 256 is its own lower case\<close>
  "toLowerCase_char c =
     (let n = (of_char c :: nat)
      in if (65 \<le> n \<and> n \<le> 90) \<or> (192 \<le> n \<and> n \<le> 222 \<and> n \<noteq> 215) then char_of (n + 32) else c)"

definition toUpperCase_char :: "char \<Rightarrow> char" where
  \<comment> \<open>\<open>a-z\<close> and the Latin-1 small letters \<open>0xE0-0xFE\<close> (without the division sign \<open>0xF7\<close>)
      move down by 32; the upper case of every other code unit below 256 is itself or lies
      outside the range, and is then left alone by the case folding of a regular expression\<close>
  "toUpperCase_char c =
     (let n = (of_char c :: nat)
      in if (97 \<le> n \<and> n \<le> 122) \<or> (224 \<le> n \<and> n \<le> 254 \<and> n \<noteq> 247) then char_of (n - 32) else c)"

definition toLowerCase :: "string \<Rightarrow> string" where
  "toLowerCase s = map toLowerCase_char s"

fun includes_str :: "string \<Rightarrow> string \<Rightarrow> bool" where
  \<comment> \<open>\<open>s.includes(t)\<close>: \<open>t\<close> occurs in \<open>s\<close> as a contiguous piece\<close>
  "includes_str [] t = (t = [])"
| "includes_str (c # cs) t = (prefix t (c # cs) \<or> includes_str cs t)"

definition trim :: "string \<Rightarrow> string" where
  "trim s = rev (dropWhile is_space (rev (dropWhile is_space s)))"

fun split_where :: "(char \<Rightarrow> bool) \<Rightarrow> string \<Rightarrow> string list" where
  \<comment> \<open>\<open>s.split(sep)\<close> for a separator that is one code unit of a class: the empty text
      gives one empty piece\<close>
  "split_where sep [] = [[]]"
| "split_where sep (c # cs) =
     (let ps = split_where sep cs
      in if sep c then [] # ps else (c # hd ps) # tl ps)"

definition digit_value :: "char \<Rightarrow> nat" where
  \<comment> \<open>the value of a digit of \<open>parseInt\<close>: \<open>0-9\<close>, then \<open>a-z\<close> and \<open>A-Z\<close> from 10; 36 for
      every other code unit\<close>
  "digit_value c =
     (let n = (of_char c :: nat)
      in if 48 \<le> n \<and> n \<le> 57 then n - 48
         else if 97 \<le> n \<and> n \<le> 122 then n - 87
         else if 65 \<le> n \<and> n \<le> 90 then n - 55
         else 36)"

definition parseInt :: "string \<Rightarrow> int option" where
  \<comment> \<open>\<open>parseInt(s)\<close> without a radix; \<open>None\<close> is \<open>NaN\<close>. Leading white space and one sign
      are skipped, \<open>0x\<close> selects radix 16, and the digits up to the first other code unit
      are read\<close>
  "parseInt s =
     (let s1 = dropWhile is_space s;
          negative = (case s1 of [] \<Rightarrow> False | c # _ \<Rightarrow> c = CHR ''-'');
          s2 = (case s1 of [] \<Rightarrow> [] | c # cs \<Rightarrow> if c = CHR ''+'' \<or> c = CHR ''-'' then cs else s1);
          hex = (prefix ''0x'' s2 \<or> prefix ''0X'' s2);
          radix = (if hex then 16 else 10);
          z = takeWhile (\<lambda>c. digit_value c < radix) (if hex then drop 2 s2 else s2);
          n = foldl (\<lambda>a c. a * int radix + int (digit_value c)) 0 z
      in if z = [] then None else Some (if negative then - n else n))"

section \<open>Regular expressions\<close>

text \<open>
  The source does its text work with regular expressions. They are embedded as terms of
  \<open>rx\<close> and run by a backtracking matcher that follows the matching order of the
  language: a quantifier is greedy, an alternative tries its left side first, and the
  first way of matching that succeeds is the result.

  A matcher state holds the code unit just before the current position (\<open>None\<close> at the
  start of the input), the rest of the input, and the text of capture group 1 if the
  group has been matched. \<open>rxm\<close> returns the states in which a pattern can end, in the
  order backtracking would find them.

  Every quantified sub-pattern of the source consumes at least one code unit, so the rule
  of the language that forbids an empty iteration never applies and is not modelled.
\<close>

datatype rx =
    Eps
  | Cls "char \<Rightarrow> bool"       \<comment> \<open>one code unit of a class\<close>
  | Many "char \<Rightarrow> bool" nat  \<comment> \<open>\<open>[..]{n,}\<close>: \<open>*\<close> is \<open>Many p 0\<close>, \<open>+\<close> is \<open>Many p 1\<close>\<close>
  | Seq rx rx
  | Alt rx rx
  | Rep rx nat nat            \<comment> \<open>\<open>(?:r){lo,hi}\<close>: \<open>?\<close> is \<open>Rep r 0 1\<close>\<close>
  | Grp rx                    \<comment> \<open>capture group 1\<close>
  | WordB                     \<comment> \<open>\<open>\b\<close>\<close>
  | Bol                       \<comment> \<open>\<open>^\<close>\<close>
  | Eol                       \<comment> \<open>\<open>$\<close>\<close>

type_synonym rstate = "char option \<times> string \<times> string option"

definition cls_match :: "bool \<Rightarrow> (char \<Rightarrow> bool) \<Rightarrow> char \<Rightarrow> bool" where
  \<comment> \<open>with the \<open>i\<close> flag a code unit is in a class when a member of the class has the same
      case folding\<close>
  "cls_match ci p c = (p c \<or> (ci \<and> (p (toUpperCase_char c) \<or> p (toLowerCase_char c))))"

fun rx_many :: "bool \<Rightarrow> (char \<Rightarrow> bool) \<Rightarrow> nat \<Rightarrow> rstate \<Rightarrow> rstate list" where
  "rx_many ci p lo (prev, [], cap) = (if lo = 0 then [(prev, [], cap)] else [])"
| "rx_many ci p lo (prev, c # cs, cap) =
     (if cls_match ci p c then rx_many ci p (lo - 1) (Some c, cs, cap) else [])
     @ (if lo = 0 then [(prev, c # cs, cap)] else [])"

definition at_boundary :: "char option \<Rightarrow> string \<Rightarrow> bool" where
  "at_boundary prev rest =
     ((case prev of None \<Rightarrow> False | Some c \<Rightarrow> is_word c)
      \<noteq> (case rest of [] \<Rightarrow> False | c # _ \<Rightarrow> is_word c))"

fun rx_rep :: "(rstate \<Rightarrow> rstate list) \<Rightarrow> nat \<Rightarrow> nat \<Rightarrow> rstate \<Rightarrow> rstate list" where
  \<comment> \<open>up to \<open>hi\<close> more rounds of the matcher \<open>m\<close>, \<open>lo\<close> of them required: one more round is
      tried before stopping\<close>
  "rx_rep m lo 0 st = [st]"
| "rx_rep m lo (Suc h) st =
     concat (map (rx_rep m (lo - 1) h) (m st)) @ (if lo = 0 then [st] else [])"

fun rxm :: "bool \<Rightarrow> rx \<Rightarrow> rstate \<Rightarrow> rstate list" where
  "rxm ci Eps st = [st]"
| "rxm ci (Cls p) (prev, rest, cap) =
     (case rest of [] \<Rightarrow> []
      | c # cs \<Rightarrow> if cls_match ci p c then [(Some c, cs, cap)] else [])"
| "rxm ci (Many p lo) st = rx_many ci p lo st"
| "rxm ci (Seq a b) st = concat (map (rxm ci b) (rxm ci a st))"
| "rxm ci (Alt a b) st = rxm ci a st @ rxm ci b st"
| "rxm ci (Rep r lo hi) st = rx_rep (\<lambda>s. rxm ci r s) lo hi st"
| "rxm ci (Grp r) (prev, rest, cap) =
     map (\<lambda>(prev', rest', _). (prev', rest', Some (take (length rest - length rest') rest)))
       (rxm ci r (prev, rest, cap))"
| "rxm ci WordB (prev, rest, cap) = (if at_boundary prev rest then [(prev, rest, cap)] else [])"
| "rxm ci Bol (prev, rest, cap) = (if prev = None then [(prev, rest, cap)] else [])"
| "rxm ci Eol (prev, rest, cap) = (if rest = [] then [(prev, rest, cap)] else [])"

fun rx_exec :: "bool \<Rightarrow> rx \<Rightarrow> char option \<Rightarrow> string \<Rightarrow> (string \<times> string option) option" where
  \<comment> \<open>the first match at or after the current position: its text and capture group 1\<close>
  "rx_exec ci r prev rest =
     (case rxm ci r (prev, rest, None) of
        (_, rest', cap) # _ \<Rightarrow> Some (take (length rest - length rest') rest, cap)
      | [] \<Rightarrow> (case rest of [] \<Rightarrow> None | c # cs \<Rightarrow> rx_exec ci r (Some c) cs))"

definition rx_test :: "bool \<Rightarrow> rx \<Rightarrow> string \<Rightarrow> bool" where
  \<comment> \<open>\<open>re.test(s)\<close> for a pattern without the \<open>g\<close> flag\<close>
  "rx_test ci r s = (rx_exec ci r None s \<noteq> None)"

fun rx_scan :: "bool \<Rightarrow> rx \<Rightarrow> nat \<Rightarrow> char option \<Rightarrow> string \<Rightarrow> (string \<times> string option) list" where
  \<comment> \<open>the matches of a pattern with the \<open>g\<close> flag, left to right; the counter is the number of
      code units still covered by the last match\<close>
  "rx_scan ci r (Suc k) prev [] = []"
| "rx_scan ci r (Suc k) prev (c # cs) = rx_scan ci r k (Some c) cs"
| "rx_scan ci r 0 prev rest =
     (case rxm ci r (prev, rest, None) of
        [] \<Rightarrow> (case rest of [] \<Rightarrow> [] | c # cs \<Rightarrow> rx_scan ci r 0 (Some c) cs)
      | (_, rest', cap) # _ \<Rightarrow>
          (take (length rest - length rest') rest, cap)
          # (case rest of [] \<Rightarrow> []
             | c # cs \<Rightarrow> rx_scan ci r (length rest - length rest' - 1) (Some c) cs))"

datatype js_error = TypeError

record regexp =
  source :: rx
  ignoreCase :: bool
  global :: bool

definition RegExp :: "rx \<Rightarrow> string \<Rightarrow> regexp" where
  \<comment> \<open>a pattern with its flags, as \<open>/pattern/flags\<close>\<close>
  "RegExp r flags =
     \<lparr>source = r, ignoreCase = (CHR ''i'' \<in> set flags), global = (CHR ''g'' \<in> set flags)\<rparr>"

definition matchAll :: "regexp \<Rightarrow> string \<Rightarrow> js_error + (string \<times> string option) list" where
  \<comment> \<open>\<open>s.matchAll(re)\<close>: every match with its capture group 1. Called with a pattern
      that has no \<open>g\<close> flag it throws a \<open>TypeError\<close>\<close>
  "matchAll re s =
     (if global re then Inr (rx_scan (ignoreCase re) (source re) 0 None s) else Inl TypeError)"

datatype match_result =
    NoMatch                       \<comment> \<open>\<open>null\<close>\<close>
  | First string "string option"  \<comment> \<open>without \<open>g\<close>: the first match and its group 1\<close>
  | All "string list"             \<comment> \<open>with \<open>g\<close>: the texts of all matches\<close>

definition str_match :: "regexp \<Rightarrow> string \<Rightarrow> match_result" where
  \<comment> \<open>\<open>s.match(re)\<close>\<close>
  "str_match re s =
     (if global re then
        (case map fst (rx_scan (ignoreCase re) (source re) 0 None s) of
           [] \<Rightarrow> NoMatch
         | m # ms \<Rightarrow> All (m # ms))
      else
        (case rx_exec (ignoreCase re) (source re) None s of
           None \<Rightarrow> NoMatch
         | Some (m, cap) \<Rightarrow> First m cap))"

fun truthy :: "string option \<Rightarrow> string option" where
  \<comment> \<open>a value used as a condition: \<open>undefined\<close> and the empty text count as false\<close>
  "truthy None = None"
| "truthy (Some s) = (if s = [] then None else Some s)"

fun match_1 :: "match_result \<Rightarrow> string option" where
  \<comment> \<open>\<open>match && match[1]\<close>, when truthy\<close>
  "match_1 NoMatch = None"
| "match_1 (First m cap) = truthy cap"
| "match_1 (All ms) = (if length ms > 1 then truthy (Some (ms ! 1)) else None)"

fun rx_replace :: "bool \<Rightarrow> rx \<Rightarrow> string \<Rightarrow> nat \<Rightarrow> char option \<Rightarrow> string \<Rightarrow> string" where
  "rx_replace ci r new (Suc k) prev [] = []"
| "rx_replace ci r new (Suc k) prev (c # cs) = rx_replace ci r new k (Some c) cs"
| "rx_replace ci r new 0 prev rest =
     (case rxm ci r (prev, rest, None) of
        [] \<Rightarrow> (case rest of [] \<Rightarrow> [] | c # cs \<Rightarrow> c # rx_replace ci r new 0 (Some c) cs)
      | (_, rest', cap) # _ \<Rightarrow>
          new @ (case rest of [] \<Rightarrow> []
                 | c # cs \<Rightarrow>
                     (if length rest - length rest' = 0 then [c] else [])
                     @ rx_replace ci r new (length rest - length rest' - 1) (Some c) cs))"

definition replaceAll :: "rx \<Rightarrow> string \<Rightarrow> string \<Rightarrow> string" where
  \<comment> \<open>\<open>s.replace(re, new)\<close> for a pattern with the \<open>g\<close> flag and a replacement text
      without \<open>$\<close>\<close>
  "replaceAll r new s = rx_replace False r new 0 None s"

definition seqs :: "rx list \<Rightarrow> rx" where
  \<comment> \<open>the patterns of a list one after the other\<close>
  "seqs rs = foldr Seq rs Eps"

definition lit :: "string \<Rightarrow> rx" where
  \<comment> \<open>a literal text\<close>
  "lit s = seqs (map (\<lambda>c. Cls (\<lambda>x. x = c)) s)"

fun first_some :: "('a \<Rightarrow> 'b option) \<Rightarrow> 'a list \<Rightarrow> 'b option" where
  \<comment> \<open>a \<open>for\<close> loop that keeps the first value its body accepts and then breaks\<close>
  "first_some f [] = None"
| "first_some f (x # xs) = (case f x of Some y \<Rightarrow> Some y | None \<Rightarrow> first_some f xs)"

fun pattern_loop ::
  "(string \<times> string option \<Rightarrow> string option) \<Rightarrow> regexp list \<Rightarrow> string \<Rightarrow> js_error + string option"
where
  \<comment> \<open>the loops of \<open>extractDataFromText\<close> over the patterns of a field: for each pattern,
      the first match the body accepts sets the field and ends both loops. A field that
      is set is never the empty text, so \<open>if (data.field) break\<close> leaves the outer loop
      exactly then\<close>
  "pattern_loop body [] cleanedText = Inr None"
| "pattern_loop body (pattern # patterns) cleanedText =
     (case matchAll pattern cleanedText of
        Inl e \<Rightarrow> Inl e
      | Inr matches \<Rightarrow>
          (case first_some body matches of
             Some v \<Rightarrow> Inr (Some v)
           | None \<Rightarrow> pattern_loop body patterns cleanedText))"

section \<open>The comparators and the verdict (IdVerificationForm)\<close>

record FormData =
  name :: string
  dateOfBirth :: string
  idNumber :: string
  phoneNumber :: string

record ExtractedData =
  name :: "string option"
  dateOfBirth :: "string option"
  idNumber :: "string option"
  phoneNumber :: "string option"

record VerificationResults =
  name :: bool
  dateOfBirth :: bool
  idNumber :: bool
  phoneNumber :: bool
  overall :: bool

definition normalizeText :: "string \<Rightarrow> string" where
  \<comment> \<open>\<open>text.toLowerCase().replace(/[^a-z0-9]/g, '')\<close>\<close>
  "normalizeText text = replaceAll (Cls (\<lambda>c. \<not> (is_lower c \<or> is_digit c))) [] (toLowerCase text)"

definition normalizeDate :: "string \<Rightarrow> string" where
  "normalizeDate date =
     (let cleaned = replaceAll (Cls (\<lambda>c. \<not> is_digit c)) [] date
      in if length cleaned = 8 then cleaned else cleaned)"

definition normalizePhone :: "string \<Rightarrow> string" where
  "normalizePhone phone = replaceAll (Cls (\<lambda>c. \<not> is_digit c)) [] phone"

definition compareFields :: "string option \<Rightarrow> string \<Rightarrow> bool" where
  \<comment> \<open>\<open>!extracted\<close> holds for \<open>undefined\<close> and for the empty string\<close>
  "compareFields extracted entered =
     (case extracted of
        None \<Rightarrow> False
      | Some ex \<Rightarrow>
          if ex = [] \<or> entered = [] then False
          else if includes_str ex '' '' \<or> includes_str entered '' '' then
            (let extractedNorm = normalizeText ex;
                 enteredNorm = normalizeText entered
             in includes_str extractedNorm enteredNorm \<or> includes_str enteredNorm extractedNorm
                \<or> extractedNorm = enteredNorm)
          else normalizeText ex = normalizeText entered)"

definition compareDates :: "string option \<Rightarrow> string \<Rightarrow> bool" where
  "compareDates extracted entered =
     (case extracted of
        None \<Rightarrow> False
      | Some ex \<Rightarrow>
          if ex = [] \<or> entered = [] then False
          else
            (let extractedNorm = normalizeDate ex;
                 enteredNorm = normalizeDate entered
             in extractedNorm = enteredNorm))"

definition comparePhones :: "string option \<Rightarrow> string \<Rightarrow> bool" where
  "comparePhones extracted entered =
     (case extracted of
        None \<Rightarrow> False
      | Some ex \<Rightarrow>
          if ex = [] \<or> entered = [] then False
          else
            (let extractedNorm = normalizePhone ex;
                 enteredNorm = normalizePhone entered
             in includes_str extractedNorm enteredNorm \<or> includes_str enteredNorm extractedNorm
                \<or> extractedNorm = enteredNorm))"

definition object_values :: "VerificationResults \<Rightarrow> bool list" where
  \<comment> \<open>\<open>Object.values(results)\<close>: the properties in the order the object literal gives them\<close>
  "object_values results =
     [VerificationResults.name results, VerificationResults.dateOfBirth results,
      VerificationResults.idNumber results, VerificationResults.phoneNumber results,
      overall results]"

definition matchCount :: "VerificationResults \<Rightarrow> nat" where
  \<comment> \<open>\<open>Object.values(results).filter((match, index) => index < 4 && match).length\<close>\<close>
  "matchCount results =
     length (filter (\<lambda>(index, match). index < 4 \<and> match) (enumerate 0 (object_values results)))"

definition set_overall :: "VerificationResults \<Rightarrow> VerificationResults" where
  \<comment> \<open>\<open>results.overall = matchCount >= 3\<close>\<close>
  "set_overall results = results\<lparr>overall := (matchCount results \<ge> 3)\<rparr>"

definition handleVerify :: "ExtractedData \<Rightarrow> FormData \<Rightarrow> VerificationResults" where
  \<comment> \<open>the results that \<open>handleVerify\<close> stores; the delay and the toast are left out\<close>
  "handleVerify extractedData formData =
     set_overall
       \<lparr>VerificationResults.name =
          compareFields (ExtractedData.name extractedData) (FormData.name formData),
        dateOfBirth =
          compareDates (ExtractedData.dateOfBirth extractedData) (FormData.dateOfBirth formData),
        idNumber =
          compareFields (ExtractedData.idNumber extractedData) (FormData.idNumber formData),
        phoneNumber =
          comparePhones (ExtractedData.phoneNumber extractedData) (FormData.phoneNumber formData),
        overall = False\<rparr>"

section \<open>Cleaning and field extraction (DocumentUpload)\<close>

definition cleanOCRText :: "string \<Rightarrow> string" where
  "cleanOCRText text =
     trim
       (replaceAll (seqs [Cls (\<lambda>c. c = newline), Many is_space 0, Cls (\<lambda>c. c = newline)]) [newline]
         (replaceAll (Cls (\<lambda>c. c \<in> set ''0O'')) ''0''
           (replaceAll (Cls (\<lambda>c. c = CHR ''|'')) ''I''
             (replaceAll (Many is_space 1) '' '' text))))"

definition text_lines :: "string \<Rightarrow> string list" where
  \<comment> \<open>\<open>lines\<close> of \<open>extractDataFromText\<close>:
      \<open>cleanedText.split('\n').map(line => line.trim()).filter(line => line.length > 2)\<close>\<close>
  "text_lines cleanedText = filter (\<lambda>line. length line > 2) (map trim (split_where (\<lambda>c. c = newline) cleanedText))"

definition skipNames :: "string list" where
  "skipNames =
     [''government of india'', ''unique identification authority'', ''aadhaar'', ''aadhar'',
      ''identity card'', ''permanent account number'', ''pan card'', ''driving license'',
      ''voter id'']"

definition is_skipped :: "string \<Rightarrow> bool" where
  \<comment> \<open>\<open>skipNames.some(skip => s.includes(skip))\<close>\<close>
  "is_skipped s = list_ex (\<lambda>skip. includes_str s skip) skipNames"

definition digits :: "nat \<Rightarrow> rx" where
  \<comment> \<open>\<open>\d{n}\<close>\<close>
  "digits n = Rep (Cls is_digit) n n"

definition name_word :: rx where
  \<comment> \<open>\<open>[A-Z][a-z]+\<close>\<close>
  "name_word = Seq (Cls is_upper) (Many is_lower 1)"

definition name_words :: "nat \<Rightarrow> nat \<Rightarrow> rx" where
  \<comment> \<open>\<open>[A-Z][a-z]+(?:\s[A-Z][a-z]+){lo,hi}\<close>\<close>
  "name_words lo hi = Seq name_word (Rep (Seq (Cls is_space) name_word) lo hi)"

definition patterns_aadhaarNumber :: "regexp list" where
  "patterns_aadhaarNumber =
     [RegExp
        (seqs [WordB,
               Grp (seqs [digits 4, Rep (Cls is_space) 0 1, digits 4, Rep (Cls is_space) 0 1,
                          digits 4]),
               WordB]) ''g'',
      RegExp (seqs [WordB, Grp (digits 12), WordB]) ''g'']"

definition patterns_name :: "regexp list" where
  "patterns_name =
     [RegExp (seqs [Bol, Grp (name_words 1 3), Eol]) [],
      RegExp
        (seqs [Alt (lit ''name'') (lit ''naam''), Many (\<lambda>c. is_space c \<or> c = CHR '':'') 1,
               Grp (name_words 1 3)]) ''i'',
      RegExp
        (seqs [WordB,
               Grp (seqs [name_word, Cls is_space, name_word,
                          Rep (Seq (Cls is_space) name_word) 0 1]),
               WordB]) []]"

definition slash_or_dash :: "char \<Rightarrow> bool" where
  \<comment> \<open>\<open>[\/\-]\<close>\<close>
  "slash_or_dash c = (c = CHR ''/'' \<or> c = CHR ''-'')"

definition patterns_dateOfBirth :: "regexp list" where
  \<comment> \<open>the third pattern is written without the \<open>g\<close> flag\<close>
  "patterns_dateOfBirth =
     [RegExp
        (seqs [WordB,
               Grp (seqs [Rep (Cls is_digit) 1 2, lit ''/'', Rep (Cls is_digit) 1 2, lit ''/'',
                          digits 4]),
               WordB]) ''g'',
      RegExp
        (seqs [WordB,
               Grp (seqs [Rep (Cls is_digit) 1 2, lit ''-'', Rep (Cls is_digit) 1 2, lit ''-'',
                          digits 4]),
               WordB]) ''g'',
      RegExp
        (seqs [Alt (lit ''dob'') (Alt (lit ''date of birth'') (lit ''born'')),
               Many (\<lambda>c. is_space c \<or> c = CHR '':'') 0,
               Grp (seqs [Rep (Cls is_digit) 1 2, Cls slash_or_dash, Rep (Cls is_digit) 1 2,
                          Cls slash_or_dash, digits 4])]) ''i'',
      RegExp
        (seqs [WordB, Grp (Alt (Seq (lit ''19'') (digits 2)) (Seq (lit ''20'') (digits 2))),
               WordB]) ''g'']"

definition six_to_nine :: "char \<Rightarrow> bool" where
  \<comment> \<open>\<open>[6-9]\<close>\<close>
  "six_to_nine c = (c \<in> set ''6789'')"

definition space_or_dash :: "char \<Rightarrow> bool" where
  \<comment> \<open>\<open>[\s\-]\<close>\<close>
  "space_or_dash c = (is_space c \<or> c = CHR ''-'')"

definition patterns_phoneNumber :: "regexp list" where
  "patterns_phoneNumber =
     [RegExp (seqs [WordB, Grp (Seq (Cls six_to_nine) (digits 9)), WordB]) ''g'',
      RegExp
        (seqs [lit ''+91'', Rep (Cls space_or_dash) 0 1, Grp (Seq (Cls six_to_nine) (digits 9))])
        ''g'',
      RegExp
        (seqs [WordB,
               Grp (seqs [Cls six_to_nine, digits 4, Rep (Cls space_or_dash) 0 1, digits 5]),
               WordB]) ''g'',
      RegExp (seqs [WordB, Grp (digits 10), WordB]) ''g'']"

definition aadhaar_of_match :: "string \<times> string option \<Rightarrow> string option" where
  \<comment> \<open>the body of the inner loop for the ID number\<close>
  "aadhaar_of_match m =
     (case truthy (snd m) of
        None \<Rightarrow> None
      | Some g \<Rightarrow>
          let aadhaar = replaceAll (Cls is_space) [] g
          in if length aadhaar = 12 \<and> rx_test False (seqs [Bol, digits 12, Eol]) aadhaar
             then Some aadhaar else None)"

definition phone_of_match :: "string \<times> string option \<Rightarrow> string option" where
  \<comment> \<open>the body of the inner loop for the phone number\<close>
  "phone_of_match m =
     (case truthy (snd m) of
        None \<Rightarrow> None
      | Some g \<Rightarrow>
          let phone = replaceAll (Cls space_or_dash) [] g
          in if length phone = 10
                \<and> rx_test False (seqs [Bol, Cls six_to_nine, digits 9, Eol]) phone
             then Some phone else None)"

definition birth_year :: "int option \<Rightarrow> bool" where
  \<comment> \<open>\<open>year >= 1900 && year <= 2010\<close>, false for \<open>NaN\<close>\<close>
  "birth_year year = (case year of None \<Rightarrow> False | Some y \<Rightarrow> 1900 \<le> y \<and> y \<le> 2010)"

definition date_of_match :: "string \<times> string option \<Rightarrow> string option" where
  \<comment> \<open>the body of the inner loop for the date of birth\<close>
  "date_of_match m =
     (case truthy (snd m) of
        None \<Rightarrow> None
      | Some dateStr \<Rightarrow>
          if includes_str dateStr ''/'' \<or> includes_str dateStr ''-'' then
            (let parts = split_where slash_or_dash dateStr
             in if length parts = 3 \<and> birth_year (parseInt (parts ! 2)) then Some dateStr
                else None)
          else if length dateStr = 4 \<and> birth_year (parseInt dateStr) then Some dateStr
          else None)"

definition name_of_match :: "string \<Rightarrow> regexp \<Rightarrow> string option" where
  \<comment> \<open>the body of the loop over \<open>patterns.name\<close> for one line\<close>
  "name_of_match line pattern =
     (case match_1 (str_match pattern line) of
        None \<Rightarrow> None
      | Some g \<Rightarrow>
          let nameCandidate = trim g
          in if length nameCandidate \<ge> 4 \<and> length nameCandidate \<le> 35
                \<and> rx_test False (seqs [Bol, name_words 1 3, Eol]) nameCandidate
             then (let lowerName = toLowerCase nameCandidate;
                       isValidName = \<not> is_skipped lowerName
                   in if isValidName then Some nameCandidate else None)
             else None)"

definition name_of_line :: "string \<Rightarrow> string option" where
  \<comment> \<open>the body of the loop over \<open>lines\<close>\<close>
  "name_of_line line =
     (let lowerLine = toLowerCase line;
          isHeader = is_skipped lowerLine
      in if isHeader then None
         else if rx_test False (Cls is_digit) line then None
         else if length line < 4 \<or> length line > 40 then None
         else first_some (name_of_match line) patterns_name)"

definition long_word :: rx where
  \<comment> \<open>\<open>[A-Z][a-z]{2,}\<close>\<close>
  "long_word = Seq (Cls is_upper) (Many is_lower 2)"

definition fullText_pattern :: regexp where
  \<comment> \<open>\<open>/\b([A-Z][a-z]{2,}\s[A-Z][a-z]{2,}(?:\s[A-Z][a-z]{2,})?)\b/g\<close>\<close>
  "fullText_pattern =
     RegExp
       (seqs [WordB,
              Grp (seqs [long_word, Cls is_space, long_word,
                         Rep (Seq (Cls is_space) long_word) 0 1]),
              WordB]) ''g''"

definition name_of_fullText :: "string \<Rightarrow> string option" where
  \<comment> \<open>the fallback over the whole text; the pattern has the \<open>g\<close> flag, so the result of
      \<open>match\<close> is \<open>null\<close> or the texts of all matches\<close>
  "name_of_fullText cleanedText =
     (let fullText = replaceAll (Cls (\<lambda>c. c = newline)) '' '' cleanedText;
          nameMatches =
            (case str_match fullText_pattern fullText of All ms \<Rightarrow> ms | _ \<Rightarrow> [])
      in first_some
           (\<lambda>nameMatch.
              let lowerName = toLowerCase nameMatch;
                  isValidName = \<not> is_skipped lowerName
              in if isValidName \<and> length nameMatch \<ge> 4 \<and> length nameMatch \<le> 35
                 then Some nameMatch else None)
           nameMatches)"

definition extract_name :: "string \<Rightarrow> string option" where
  \<comment> \<open>the loop over the lines, then the fallback. An accepted name has at least 4 code
      units, so \<open>!data.name\<close> holds exactly when the loop set none\<close>
  "extract_name cleanedText =
     (case first_some name_of_line (text_lines cleanedText) of
        Some n \<Rightarrow> Some n
      | None \<Rightarrow> name_of_fullText cleanedText)"

definition extractDataFromText :: "string \<Rightarrow> js_error + ExtractedData" where
  \<comment> \<open>the fields in the order the source fills them; \<open>Inl\<close> is an exception that leaves
      the function\<close>
  "extractDataFromText text =
     (let cleanedText = cleanOCRText text
      in case pattern_loop aadhaar_of_match patterns_aadhaarNumber cleanedText of
           Inl e \<Rightarrow> Inl e
         | Inr id_found \<Rightarrow>
             (case pattern_loop phone_of_match patterns_phoneNumber cleanedText of
                Inl e \<Rightarrow> Inl e
              | Inr phone_found \<Rightarrow>
                  (case pattern_loop date_of_match patterns_dateOfBirth cleanedText of
                     Inl e \<Rightarrow> Inl e
                   | Inr date_found \<Rightarrow>
                       Inr \<lparr>ExtractedData.name = extract_name cleanedText,
                            ExtractedData.dateOfBirth = date_found,
                            ExtractedData.idNumber = id_found,
                            ExtractedData.phoneNumber = phone_found\<rparr>)))"

section \<open>The rules in the words of the specification\<close>

definition is_alnum :: "char \<Rightarrow> bool" where
  \<comment> \<open>a letter \<open>a-z\<close>, \<open>A-Z\<close> or a digit\<close>
  "is_alnum c = (is_lower c \<or> is_upper c \<or> is_digit c)"

definition lower_alnum :: "string \<Rightarrow> string" where
  \<comment> \<open>lower-case the text, then remove every character that is not alphanumeric\<close>
  "lower_alnum s = filter is_alnum (toLowerCase s)"

definition generic_text_rule :: "string \<Rightarrow> string \<Rightarrow> bool" where
  \<comment> \<open>the two normalized texts are equal, or one is a substring of the other\<close>
  "generic_text_rule a b =
     (lower_alnum a = lower_alnum b \<or> sublist (lower_alnum a) (lower_alnum b)
      \<or> sublist (lower_alnum b) (lower_alnum a))"

definition flag_count :: "VerificationResults \<Rightarrow> nat" where
  \<comment> \<open>the number of true flags among the four fields\<close>
  "flag_count r =
     length (filter (\<lambda>b. b)
       [VerificationResults.name r, VerificationResults.dateOfBirth r,
        VerificationResults.idNumber r, VerificationResults.phoneNumber r])"

definition proper_word :: "string \<Rightarrow> bool" where
  \<comment> \<open>an uppercase letter followed by lowercase letters, at least one\<close>
  "proper_word w =
     (case w of [] \<Rightarrow> False | c # cs \<Rightarrow> is_upper c \<and> cs \<noteq> [] \<and> list_all is_lower cs)"

definition proper_name :: "string \<Rightarrow> bool" where
  \<comment> \<open>2 to 4 words, separated by single spaces, each a proper word\<close>
  "proper_name n =
     (let ws = split_where (\<lambda>c. c = CHR '' '') n
      in 2 \<le> length ws \<and> length ws \<le> 4 \<and> list_all proper_word ws)"

definition spaced :: "string list \<Rightarrow> string" where
  \<comment> \<open>the words of a list, each with a space before it\<close>
  "spaced ws = concat (map (\<lambda>w. CHR '' '' # w) ws)"










section \<open>What a pattern can consume\<close>

text \<open>
  The texts a pattern can consume, without regard to the positions where \<open>\b\<close>, \<open>^\<close>
  and \<open>$\<close> hold. Every end state of the matcher has consumed one of them.
\<close>

fun rx_rep_lang :: "string set \<Rightarrow> nat \<Rightarrow> nat \<Rightarrow> string set" where
  \<comment> \<open>what \<open>rx_rep\<close> can consume when one round consumes a text of \<open>L\<close>\<close>
  "rx_rep_lang L lo 0 = {[]}"
| "rx_rep_lang L lo (Suc h) =
     {u @ v | u v. u \<in> L \<and> v \<in> rx_rep_lang L (lo - 1) h} \<union> (if lo = 0 then {[]} else {})"

fun lang :: "bool \<Rightarrow> rx \<Rightarrow> string set" where
  "lang ci Eps = {[]}"
| "lang ci (Cls p) = {[c] | c. cls_match ci p c}"
| "lang ci (Many p lo) = {w. lo \<le> length w \<and> list_all (cls_match ci p) w}"
| "lang ci (Seq a b) = {u @ v | u v. u \<in> lang ci a \<and> v \<in> lang ci b}"
| "lang ci (Alt a b) = lang ci a \<union> lang ci b"
| "lang ci (Rep r lo hi) = rx_rep_lang (lang ci r) lo hi"
| "lang ci (Grp r) = lang ci r"
| "lang ci WordB = {[]}"
| "lang ci Bol = {[]}"
| "lang ci Eol = {[]}"

fun rest_of :: "rstate \<Rightarrow> string" where
  "rest_of (prev, rest, cap) = rest"

fun cap_of :: "rstate \<Rightarrow> string option" where
  "cap_of (prev, rest, cap) = cap"

definition cap_within :: "rstate \<Rightarrow> rstate \<Rightarrow> bool" where
  \<comment> \<open>the group is as it was, or it holds code units of the input that was left\<close>
  "cap_within st st' =
     (cap_of st' = cap_of st \<or> (\<exists>g. cap_of st' = Some g \<and> set g \<subseteq> set (rest_of st)))"

definition consumes :: "string set \<Rightarrow> rstate \<Rightarrow> rstate \<Rightarrow> bool" where
  \<comment> \<open>from \<open>st\<close> to \<open>st'\<close> a text of \<open>L\<close> was consumed\<close>
  "consumes L st st' = ((\<exists>w \<in> L. rest_of st = w @ rest_of st') \<and> cap_within st st')"

definition match_at ::
  "bool \<Rightarrow> rx \<Rightarrow> char option \<Rightarrow> string \<Rightarrow> string option \<Rightarrow> string \<Rightarrow> bool"
where
  \<comment> \<open>after \<open>prev\<close> the pattern can match the text \<open>m\<close> with group \<open>cap\<close>, leaving \<open>rest'\<close>\<close>
  "match_at ci r prev m cap rest' =
     (\<exists>q. (q, rest', cap) \<in> set (rxm ci r (prev, m @ rest', None)))"

definition only_plain_spaces :: "string \<Rightarrow> bool" where
  \<comment> \<open>the only white space of the text is the space character\<close>
  "only_plain_spaces s = list_all (\<lambda>c. is_space c \<longrightarrow> c = CHR '' '') s"

section \<open>Facts about the string operations\<close>

declare rx_exec.simps [simp del] rx_scan.simps(3) [simp del] rx_replace.simps(3) [simp del]

lemma rx_replace_strip: "rx_replace False (Cls p) [] 0 prev s = filter (\<lambda>c. \<not> p c) s"
  by (induction s arbitrary: prev) (simp_all add: cls_match_def rx_replace.simps(3))

lemma replaceAll_strip: "replaceAll (Cls p) [] s = filter (\<lambda>c. \<not> p c) s"
  by (simp add: replaceAll_def rx_replace_strip)

lemma rx_replace_subst:
  "rx_replace False (Cls p) [d] 0 prev s = map (\<lambda>c. if p c then d else c) s"
  by (induction s arbitrary: prev) (simp_all add: cls_match_def rx_replace.simps(3))

lemma replaceAll_subst: "replaceAll (Cls p) [d] s = map (\<lambda>c. if p c then d else c) s"
  by (simp add: replaceAll_def rx_replace_subst)

lemma includes_str_sublist: "includes_str s t = sublist t s"
  by (induction s) (auto simp: sublist_Cons_right)

lemma includes_str_space: "includes_str s '' '' = (CHR '' '' \<in> set s)"
  by (induction s) auto

lemma sublist_space: "sublist '' '' s = (CHR '' '' \<in> set s)"
  using includes_str_space [of s] by (simp only: includes_str_sublist)

lemma is_upper_code: "is_upper c = (65 \<le> (of_char c :: nat) \<and> (of_char c :: nat) \<le> 90)"
proof -
  have enum: "(of_char ` set ''ABCDEFGHIJKLMNOPQRSTUVWXYZ'' :: nat set) = set [65..<91]"
    by (simp add: upt_rec)
  have "is_upper c = ((of_char c :: nat) \<in> of_char ` set ''ABCDEFGHIJKLMNOPQRSTUVWXYZ'')"
    unfolding is_upper_def by (simp only: inj_image_mem_iff [OF inj_of_char])
  also have "\<dots> = ((of_char c :: nat) \<in> set [65..<91])"
    by (simp only: enum)
  also have "\<dots> = (65 \<le> (of_char c :: nat) \<and> (of_char c :: nat) \<le> 90)"
    by (simp only: set_upt atLeastLessThan_iff, arith)
  finally show ?thesis .
qed

lemma not_upper_toLowerCase_char: "\<not> is_upper (toLowerCase_char c)"
  by (auto simp: is_upper_code toLowerCase_char_def Let_def)

lemma normalizeText_lower_alnum: "normalizeText s = lower_alnum s"
proof -
  have "filter (\<lambda>c. \<not> \<not> (is_lower c \<or> is_digit c)) (map toLowerCase_char s)
        = filter is_alnum (map toLowerCase_char s)"
    by (rule filter_cong) (auto simp: is_alnum_def not_upper_toLowerCase_char)
  thus ?thesis
    by (simp only: normalizeText_def lower_alnum_def toLowerCase_def replaceAll_strip)
qed

lemma matchCount_flag_count: "matchCount r = flag_count r"
  by (simp add: matchCount_def flag_count_def object_values_def)

section \<open>Facts about the matcher\<close>

lemma consumes_refl: "[] \<in> L \<Longrightarrow> consumes L st st"
  by (simp add: consumes_def cap_within_def)

lemma consumes_mono: "consumes A st st' \<Longrightarrow> A \<subseteq> B \<Longrightarrow> consumes B st st'"
  unfolding consumes_def by blast

lemma cap_within_trans:
  assumes "cap_within st mid" and "cap_within mid st'" and "set (rest_of mid) \<subseteq> set (rest_of st)"
  shows "cap_within st st'"
  using assms unfolding cap_within_def by fastforce

lemma consumes_trans:
  assumes "consumes A st mid" and "consumes B mid st'"
  shows "consumes {u @ v | u v. u \<in> A \<and> v \<in> B} st st'"
proof -
  from assms obtain u v where u: "u \<in> A" "rest_of st = u @ rest_of mid"
    and v: "v \<in> B" "rest_of mid = v @ rest_of st'"
    by (auto simp: consumes_def)
  have "rest_of st = (u @ v) @ rest_of st'" using u v by simp
  hence "\<exists>w \<in> {u @ v | u v. u \<in> A \<and> v \<in> B}. rest_of st = w @ rest_of st'"
    using u(1) v(1) by blast
  moreover have "set (rest_of mid) \<subseteq> set (rest_of st)" using u by simp
  hence "cap_within st st'"
    using assms cap_within_trans unfolding consumes_def by blast
  ultimately show ?thesis by (simp add: consumes_def)
qed

lemma rx_many_consumes:
  "st' \<in> set (rx_many ci p lo st) \<Longrightarrow> consumes (lang ci (Many p lo)) st st'"
proof (induction ci p lo st rule: rx_many.induct)
  case (1 ci p lo prev cap)
  then show ?case by (auto simp: consumes_def cap_within_def split: if_splits)
next
  case (2 ci p lo prev c cs cap)
  from "2.prems" consider
    (more) "cls_match ci p c" "st' \<in> set (rx_many ci p (lo - 1) (Some c, cs, cap))"
    | (stop) "lo = 0" "st' = (prev, c # cs, cap)"
    by (auto split: if_splits)
  then show ?case
  proof cases
    case more
    from "2.IH" [OF more] obtain w where w: "lo - 1 \<le> length w" "list_all (cls_match ci p) w"
      "cs = w @ rest_of st'"
      and cap: "cap_within (Some c, cs, cap) st'"
      by (auto simp: consumes_def)
    have "c # w \<in> lang ci (Many p lo)" using w more by auto
    moreover have "rest_of (prev, c # cs, cap) = (c # w) @ rest_of st'" using w by simp
    moreover have "cap_within (prev, c # cs, cap) st'"
      using cap unfolding cap_within_def by auto
    ultimately show ?thesis unfolding consumes_def by blast
  next
    case stop
    then show ?thesis by (simp add: consumes_def cap_within_def)
  qed
qed

lemma rx_rep_consumes:
  assumes m: "\<And>s s'. s' \<in> set (m s) \<Longrightarrow> consumes L s s'"
  shows "st' \<in> set (rx_rep m lo hi st) \<Longrightarrow> consumes (rx_rep_lang L lo hi) st st'"
proof (induction hi arbitrary: lo st)
  case 0
  then show ?case by (simp add: consumes_refl)
next
  case (Suc h)
  from Suc.prems consider
    (more) mid where "mid \<in> set (m st)" "st' \<in> set (rx_rep m (lo - 1) h mid)"
    | (stop) "lo = 0" "st' = st"
    by (auto split: if_splits)
  then show ?case
  proof cases
    case more
    have "consumes {u @ v | u v. u \<in> L \<and> v \<in> rx_rep_lang L (lo - 1) h} st st'"
      using consumes_trans [OF m [OF more(1)] Suc.IH [OF more(2)]] .
    then show ?thesis by (auto simp: consumes_def)
  next
    case stop
    then show ?thesis by (simp add: consumes_def cap_within_def)
  qed
qed

lemma rxm_consumes: "st' \<in> set (rxm ci r st) \<Longrightarrow> consumes (lang ci r) st st'"
proof (induction r arbitrary: st st')
  case Eps
  then show ?case by (simp add: consumes_refl)
next
  case (Cls p)
  then show ?case by (cases st) (auto simp: consumes_def cap_within_def split: list.splits if_splits)
next
  case (Many p lo)
  then show ?case using rx_many_consumes [of st' ci p lo st] by simp
next
  case (Seq a b)
  from Seq.prems obtain mid where "mid \<in> set (rxm ci a st)" "st' \<in> set (rxm ci b mid)"
    by auto
  then show ?case using consumes_trans [OF Seq.IH(1) Seq.IH(2)] by simp
next
  case (Alt a b)
  from Alt.prems have "st' \<in> set (rxm ci a st) \<or> st' \<in> set (rxm ci b st)" by simp
  then show ?case
  proof
    assume "st' \<in> set (rxm ci a st)"
    from consumes_mono [OF Alt.IH(1) [OF this]] show ?thesis by simp
  next
    assume "st' \<in> set (rxm ci b st)"
    from consumes_mono [OF Alt.IH(2) [OF this]] show ?thesis by simp
  qed
next
  case (Rep r lo hi)
  then show ?case using rx_rep_consumes [of "\<lambda>s. rxm ci r s" "lang ci r"] by simp
next
  case (Grp r)
  obtain prev rest cap where st: "st = (prev, rest, cap)" by (cases st)
  from Grp.prems st obtain p' rest' c' where
    mem: "(p', rest', c') \<in> set (rxm ci r (prev, rest, cap))"
    and st': "st' = (p', rest', Some (take (length rest - length rest') rest))"
    by auto
  from Grp.IH [OF mem] show ?case unfolding st st'
    by (auto simp: consumes_def cap_within_def dest: in_set_takeD)
next
  case WordB
  then show ?case by (cases st) (auto simp: consumes_def cap_within_def split: if_splits)
next
  case Bol
  then show ?case by (cases st) (auto simp: consumes_def cap_within_def split: if_splits)
next
  case Eol
  then show ?case by (cases st) (auto simp: consumes_def cap_within_def split: if_splits)
qed

lemma rxm_hd_match_at:
  assumes "rxm ci r (prev, rest, None) = (q, rest', cap) # others"
  shows "rest = take (length rest - length rest') rest @ rest'
         \<and> match_at ci r prev (take (length rest - length rest') rest) cap rest'"
proof -
  have mem: "(q, rest', cap) \<in> set (rxm ci r (prev, rest, None))" using assms by simp
  from rxm_consumes [OF mem] obtain w where "rest = w @ rest'" by (auto simp: consumes_def)
  hence "take (length rest - length rest') rest = w" by simp
  with mem \<open>rest = w @ rest'\<close> show ?thesis unfolding match_at_def by auto
qed

lemma match_at_lang: "match_at ci r prev m cap rest' \<Longrightarrow> m \<in> lang ci r"
  unfolding match_at_def by (auto dest!: rxm_consumes simp: consumes_def)

lemma match_at_cap: "match_at ci r prev m (Some g) rest' \<Longrightarrow> set g \<subseteq> set (m @ rest')"
  unfolding match_at_def by (auto dest!: rxm_consumes simp: consumes_def cap_within_def)

lemma rx_exec_Some:
  "rx_exec ci r prev rest = Some (m, cap) \<Longrightarrow>
   \<exists>sk rest'. rest = sk @ m @ rest'
     \<and> match_at ci r (if sk = [] then prev else Some (last sk)) m cap rest'"
proof (induction rest arbitrary: prev)
  case Nil
  then show ?case
    by (auto simp: rx_exec.simps [of ci r prev "[]"] split: list.splits dest!: rxm_hd_match_at)
next
  case (Cons c cs)
  show ?case
  proof (cases "rxm ci r (prev, c # cs, None)")
    case Nil
    with Cons.prems have "rx_exec ci r (Some c) cs = Some (m, cap)"
      by (simp add: rx_exec.simps [of ci r prev "c # cs"])
    from Cons.IH [OF this] obtain sk rest' where
      "cs = sk @ m @ rest'" "match_at ci r (if sk = [] then Some c else Some (last sk)) m cap rest'"
      by blast
    hence "c # cs = (c # sk) @ m @ rest'
           \<and> match_at ci r (if c # sk = [] then prev else Some (last (c # sk))) m cap rest'"
      by auto
    then show ?thesis by blast
  next
    case (Cons st others)
    obtain q rest' cap' where st: "st = (q, rest', cap')" by (cases st)
    from Cons.prems Cons st have m: "m = take (length (c # cs) - length rest') (c # cs)"
      and cap: "cap = cap'"
      by (simp_all add: rx_exec.simps [of ci r prev "c # cs"])
    from rxm_hd_match_at [OF Cons [unfolded st]] m cap
    have "c # cs = [] @ m @ rest' \<and> match_at ci r prev m cap rest'" by simp
    then show ?thesis by (metis (full_types))
  qed
qed

lemma rx_scan_mem:
  "(m, cap) \<in> set (rx_scan ci r k prev rest) \<Longrightarrow>
   \<exists>sk rest' p. rest = sk @ m @ rest' \<and> match_at ci r p m cap rest'"
proof (induction ci r k prev rest rule: rx_scan.induct)
  case (1 ci r k prev)
  then show ?case by simp
next
  case (2 ci r k prev c cs)
  then obtain sk rest' p where "cs = sk @ m @ rest'" "match_at ci r p m cap rest'" by auto
  hence "c # cs = (c # sk) @ m @ rest' \<and> match_at ci r p m cap rest'" by simp
  then show ?case by blast
next
  case (3 ci r prev rest)
  show ?case
  proof (cases "rxm ci r (prev, rest, None)")
    case Nil
    with "3.prems" obtain c cs where rest: "rest = c # cs"
      and mem: "(m, cap) \<in> set (rx_scan ci r 0 (Some c) cs)"
      by (auto simp: rx_scan.simps(3) [of ci r prev rest] split: list.splits)
    from "3.IH"(1) [OF Nil rest mem] obtain sk rest' p where
      "cs = sk @ m @ rest'" "match_at ci r p m cap rest'" by auto
    hence "rest = (c # sk) @ m @ rest' \<and> match_at ci r p m cap rest'" using rest by simp
    then show ?thesis by blast
  next
    case (Cons st others)
    obtain q rest' cap' where st: "st = (q, rest', cap')" by (cases st)
    let ?n = "length rest - length rest'"
    from "3.prems" Cons st consider
      (here) "m = take ?n rest" "cap = cap'"
      | (later) c cs where "rest = c # cs" "(m, cap) \<in> set (rx_scan ci r (?n - 1) (Some c) cs)"
      by (auto simp: rx_scan.simps(3) [of ci r prev rest] split: list.splits)
    then show ?thesis
    proof cases
      case here
      from rxm_hd_match_at [OF Cons [unfolded st]] here
      have "rest = [] @ m @ rest' \<and> match_at ci r prev m cap rest'" by simp
      then show ?thesis by blast
    next
      case later
      have "\<exists>sk rest'' p. cs = sk @ m @ rest'' \<and> match_at ci r p m cap rest''"
        using later(2)
        by (intro "3.IH"(2) [OF Cons _ _ later(1), of q "(rest', cap')" rest' cap'])
           (simp_all add: st)
      then obtain sk rest'' p where
        "cs = sk @ m @ rest''" "match_at ci r p m cap rest''" by auto
      hence "rest = (c # sk) @ m @ rest'' \<and> match_at ci r p m cap rest''" using later(1) by simp
      then show ?thesis by blast
    qed
  qed
qed

lemma rx_many_0_nonempty: "rx_many ci p 0 st \<noteq> []"
proof -
  obtain prev rest cap where "st = (prev, rest, cap)" by (cases st)
  thus ?thesis by (cases rest) simp_all
qed

lemma rx_replace_collapse:
  "x \<in> set (rx_replace False (Many is_space (Suc 0)) '' '' k prev s) \<Longrightarrow>
   x = CHR '' '' \<or> (x \<in> set s \<and> \<not> is_space x)"
proof (induction "False" "Many is_space (Suc 0)" "'' ''" k prev s rule: rx_replace.induct)
  case (1 k prev)
  then show ?case by simp
next
  case (2 k prev c cs)
  then show ?case by auto
next
  case (3 prev rest)
  show ?case
  proof (cases "rxm False (Many is_space (Suc 0)) (prev, rest, None)")
    case Nil
    with "3.prems" obtain c cs where rest: "rest = c # cs"
      and x: "x = c \<or> x \<in> set (rx_replace False (Many is_space (Suc 0)) '' '' 0 (Some c) cs)"
      by (auto simp: rx_replace.simps(3) [of _ _ _ prev rest] split: list.splits)
    from Nil rest have "\<not> is_space c"
      by (auto simp: cls_match_def rx_many_0_nonempty split: if_splits)
    with x "3.hyps"(1) [OF Nil rest] rest show ?thesis by auto
  next
    case (Cons st others)
    obtain q rest' cap' where st: "st = (q, rest', cap')" by (cases st)
    have "(q, rest', cap') \<in> set (rxm False (Many is_space (Suc 0)) (prev, rest, None))"
      using Cons st by simp
    from rxm_consumes [OF this] obtain w where w: "rest = w @ rest'" "Suc 0 \<le> length w"
      by (auto simp: consumes_def)
    hence n: "length rest - length rest' \<noteq> 0" by (cases w) simp_all
    show ?thesis
    proof (cases rest)
      case Nil
      with w show ?thesis by simp
    next
      case (Cons c cs)
      have "rx_replace False (Many is_space (Suc 0)) '' '' 0 prev rest
            = '' '' @ rx_replace False (Many is_space (Suc 0)) '' ''
                (length rest - length rest' - 1) (Some c) cs"
        using \<open>rxm False (Many is_space (Suc 0)) (prev, rest, None) = st # others\<close> st n Cons
        by (subst rx_replace.simps(3)) simp
      with "3.prems"
      have "x = CHR '' '' \<or> x \<in> set (rx_replace False (Many is_space (Suc 0)) '' ''
               (length rest - length rest' - 1) (Some c) cs)"
        by auto
      moreover have "x \<in> set (rx_replace False (Many is_space (Suc 0)) '' ''
               (length rest - length rest' - 1) (Some c) cs) \<Longrightarrow>
             x = CHR '' '' \<or> (x \<in> set cs \<and> \<not> is_space x)"
        by (rule "3.hyps"(2) [OF \<open>rxm False (Many is_space (Suc 0)) (prev, rest, None) = st # others\<close>
              _ _ Cons, of q "(rest', cap')" rest' cap']) (simp_all add: st)
      ultimately show ?thesis using Cons by auto
    qed
  qed
qed

lemma rx_replace_no_first:
  assumes "\<And>c. c \<in> set s \<Longrightarrow> \<not> p c"
  shows "rx_replace False (Seq (Cls p) r) new 0 prev s = s"
  using assms
proof (induction s arbitrary: prev)
  case Nil
  then show ?case by (subst rx_replace.simps(3)) simp
next
  case (Cons c cs)
  then show ?case by (subst rx_replace.simps(3)) (simp add: cls_match_def)
qed

lemma only_plain_spaces_iff: "only_plain_spaces s = (\<forall>c \<in> set s. is_space c \<longrightarrow> c = CHR '' '')"
  by (simp add: only_plain_spaces_def list_all_iff)

lemma set_trim: "set (trim s) \<subseteq> set s"
proof -
  have "set (trim s) = set (dropWhile is_space (rev (dropWhile is_space s)))"
    by (simp add: trim_def)
  also have "\<dots> \<subseteq> set (rev (dropWhile is_space s))" by (rule set_dropWhileD [THEN subsetI])
  also have "\<dots> \<subseteq> set s" using set_dropWhileD by fastforce
  finally show ?thesis .
qed

lemma is_space_newline: "is_space newline" "newline \<noteq> CHR '' ''"
  by (simp_all add: is_space_def newline_def)

lemma cleanOCRText_chars:
  assumes "c \<in> set (cleanOCRText t)" and "is_space c"
  shows "c = CHR '' ''"
proof -
  let ?s1 = "replaceAll (Many is_space 1) '' '' t"
  let ?s2 = "replaceAll (Cls (\<lambda>c. c = CHR ''|'')) ''I'' ?s1"
  let ?s3 = "replaceAll (Cls (\<lambda>c. c \<in> set ''0O'')) ''0'' ?s2"
  have s1: "only_plain_spaces ?s1"
    unfolding only_plain_spaces_iff replaceAll_def
    by (auto dest: rx_replace_collapse)
  have s2: "only_plain_spaces ?s2"
    using s1 unfolding only_plain_spaces_iff replaceAll_subst
    by (auto simp: is_space_def)
  have s3: "only_plain_spaces ?s3"
    using s2 unfolding only_plain_spaces_iff replaceAll_subst
    by (auto simp: is_space_def)
  have "newline \<notin> set ?s3"
    using s3 is_space_newline unfolding only_plain_spaces_iff by blast
  hence "replaceAll (seqs [Cls (\<lambda>c. c = newline), Many is_space 0, Cls (\<lambda>c. c = newline)])
           [newline] ?s3 = ?s3"
    unfolding replaceAll_def seqs_def by (auto intro: rx_replace_no_first)
  hence "cleanOCRText t = trim ?s3" by (simp add: cleanOCRText_def)
  with assms(1) set_trim have "c \<in> set ?s3" by auto
  with s3 assms(2) show ?thesis unfolding only_plain_spaces_iff by blast
qed

lemma cleanOCRText_no_newline: "newline \<notin> set (cleanOCRText t)"
  using cleanOCRText_chars [of newline t] is_space_newline by blast

lemma split_where_absent: "(\<And>c. c \<in> set s \<Longrightarrow> \<not> sep c) \<Longrightarrow> split_where sep s = [s]"
  by (induction s) (auto simp: Let_def)

lemma text_lines_single: "length (text_lines (cleanOCRText t)) \<le> 1"
proof -
  have "split_where (\<lambda>c. c = newline) (cleanOCRText t) = [cleanOCRText t]"
    using cleanOCRText_no_newline by (intro split_where_absent) blast
  thus ?thesis by (simp add: text_lines_def)
qed

lemma rx_test_anchored:
  assumes "rx_test ci (Seq Bol r) s"
  shows "\<exists>st'. st' \<in> set (rxm ci r (None, s, None))"
proof -
  from assms obtain m cap where "rx_exec ci (Seq Bol r) None s = Some (m, cap)"
    by (auto simp: rx_test_def)
  from rx_exec_Some [OF this] obtain sk rest' where s: "s = sk @ m @ rest'"
    and at: "match_at ci (Seq Bol r) (if sk = [] then None else Some (last sk)) m cap rest'"
    by blast
  from at have "sk = []" and "\<exists>q. (q, rest', cap) \<in> set (rxm ci r (None, m @ rest', None))"
    by (auto simp: match_at_def split: if_splits)
  with s show ?thesis by auto
qed

lemma rxm_seqs_Eol:
  "st' \<in> set (rxm ci (seqs (rs @ [Eol])) st) \<Longrightarrow> rest_of st \<in> lang ci (seqs rs)"
proof (induction rs arbitrary: st)
  case Nil
  then show ?case by (cases st) (auto simp: seqs_def split: if_splits)
next
  case (Cons r rs)
  from Cons.prems obtain mid where mid: "mid \<in> set (rxm ci r st)"
    and st': "st' \<in> set (rxm ci (seqs (rs @ [Eol])) mid)"
    by (auto simp: seqs_def)
  from rxm_consumes [OF mid] obtain w where "w \<in> lang ci r" "rest_of st = w @ rest_of mid"
    by (auto simp: consumes_def)
  with Cons.IH [OF st'] show ?case by (auto simp: seqs_def)
qed

lemma rx_test_whole:
  assumes "rx_test ci (seqs (Bol # rs @ [Eol])) s"
  shows "s \<in> lang ci (seqs rs)"
proof -
  have "seqs (Bol # rs @ [Eol]) = Seq Bol (seqs (rs @ [Eol]))" by (simp add: seqs_def)
  with assms rx_test_anchored obtain st' where "st' \<in> set (rxm ci (seqs (rs @ [Eol])) (None, s, None))"
    by metis
  from rxm_seqs_Eol [OF this] show ?thesis by simp
qed



lemma first_some_Some: "first_some f xs = Some v \<Longrightarrow> \<exists>x \<in> set xs. f x = Some v"
  by (induction xs) (auto split: option.splits)

section \<open>Facts about names\<close>

lemma proper_word_no_space: "proper_word w \<Longrightarrow> CHR '' '' \<notin> set w"
  by (cases w) (auto simp: proper_word_def is_upper_def is_lower_def list_all_iff)

lemma proper_word_letters: "proper_word w \<Longrightarrow> list_all (\<lambda>c. is_upper c \<or> is_lower c) w"
  by (cases w) (auto simp: proper_word_def list_all_iff)

lemma split_where_append:
  "(\<And>c. c \<in> set u \<Longrightarrow> \<not> sep c) \<Longrightarrow> sep x \<Longrightarrow>
   split_where sep (u @ x # v) = u # split_where sep v"
  by (induction u) (auto simp: Let_def)

lemma split_spaced:
  "CHR '' '' \<notin> set w \<Longrightarrow> list_all proper_word ws \<Longrightarrow>
   split_where (\<lambda>c. c = CHR '' '') (w @ spaced ws) = w # ws"
proof (induction ws arbitrary: w)
  case Nil
  then show ?case by (auto simp: spaced_def intro: split_where_absent)
next
  case (Cons u us)
  have "split_where (\<lambda>c. c = CHR '' '') (w @ CHR '' '' # (u @ spaced us))
        = w # split_where (\<lambda>c. c = CHR '' '') (u @ spaced us)"
    using Cons.prems(1) by (intro split_where_append) auto
  moreover have "split_where (\<lambda>c. c = CHR '' '') (u @ spaced us) = u # us"
    using Cons.prems(2) by (intro Cons.IH) (auto dest: proper_word_no_space)
  ultimately show ?case by (simp add: spaced_def)
qed

lemma lang_name_word: "w \<in> lang False name_word \<Longrightarrow> proper_word w"
  by (auto simp: name_word_def proper_word_def cls_match_def list_all_iff)

lemma lang_long_word: "w \<in> lang False long_word \<Longrightarrow> proper_word w"
  by (auto simp: long_word_def proper_word_def cls_match_def list_all_iff)

lemma rx_rep_lang_words:
  assumes X: "\<And>u. u \<in> lang False X \<Longrightarrow> proper_word u"
  shows "v \<in> rx_rep_lang (lang False (Seq (Cls is_space) X)) lo hi \<Longrightarrow> lo \<le> hi \<Longrightarrow>
         only_plain_spaces v \<Longrightarrow>
         \<exists>ws. v = spaced ws \<and> lo \<le> length ws \<and> length ws \<le> hi \<and> list_all proper_word ws"
proof (induction hi arbitrary: lo v)
  case 0
  then show ?case by (auto simp: spaced_def)
next
  case (Suc h)
  from Suc.prems(1) consider
    (more) c u v' where "v = c # u @ v'" "is_space c" "u \<in> lang False X"
      "v' \<in> rx_rep_lang (lang False (Seq (Cls is_space) X)) (lo - 1) h"
    | (stop) "lo = 0" "v = []"
    by (auto simp: cls_match_def split: if_splits)
  then show ?case
  proof cases
    case more
    from Suc.prems(3) more(1,2) have c: "c = CHR '' ''" and plain: "only_plain_spaces v'"
      by (auto simp: only_plain_spaces_iff)
    from Suc.prems(2) have "lo - 1 \<le> h" by simp
    from Suc.IH [OF more(4) this plain] obtain ws where
      ws: "v' = spaced ws" "lo - 1 \<le> length ws" "length ws \<le> h" "list_all proper_word ws"
      by blast
    have "v = spaced (u # ws)" using more(1) c ws(1) by (simp add: spaced_def)
    moreover have "lo \<le> length (u # ws)" "length (u # ws) \<le> Suc h" using ws by auto
    moreover have "list_all proper_word (u # ws)" using ws X [OF more(3)] by simp
    ultimately show ?thesis by blast
  next
    case stop
    then show ?thesis by (auto simp: spaced_def)
  qed
qed

lemma proper_name_spaced:
  assumes "proper_word w" and "list_all proper_word ws" and "1 \<le> length ws" and "length ws \<le> 3"
  shows "proper_name (w @ spaced ws)"
proof -
  have "split_where (\<lambda>c. c = CHR '' '') (w @ spaced ws) = w # ws"
    using assms by (intro split_spaced) (auto dest: proper_word_no_space)
  thus ?thesis using assms by (simp add: proper_name_def)
qed

lemma lang_name_words:
  assumes "n \<in> lang False (name_words 1 3)" and "only_plain_spaces n"
  shows "proper_name n"
proof -
  from assms(1) obtain w v where n: "n = w @ v" and w: "w \<in> lang False name_word"
    and v: "v \<in> rx_rep_lang (lang False (Seq (Cls is_space) name_word)) 1 3"
    by (auto simp: name_words_def)
  have "only_plain_spaces v" using assms(2) n by (simp add: only_plain_spaces_iff)
  from rx_rep_lang_words [of name_word, OF lang_name_word v _ this] obtain ws where
    "v = spaced ws" "1 \<le> length ws" "length ws \<le> 3" "list_all proper_word ws" by auto
  with proper_name_spaced [OF lang_name_word [OF w]] n show ?thesis by simp
qed

lemma lang_seqs_bounded: "lang ci (seqs [WordB, Grp g, WordB]) = lang ci g"
  by (auto simp: seqs_def)

lemma lang_seqs_4:
  "n \<in> lang ci (seqs [a, b, c, d]) \<Longrightarrow>
   \<exists>w x y z. n = w @ x @ y @ z \<and> w \<in> lang ci a \<and> x \<in> lang ci b \<and> y \<in> lang ci c
     \<and> z \<in> lang ci d"
  by (auto simp: seqs_def)

lemma lang_fullText_pattern:
  assumes "n \<in> lang False (source fullText_pattern)" and "only_plain_spaces n"
  shows "proper_name n"
proof -
  from assms(1)
  have "n \<in> lang False (seqs [long_word, Cls is_space, long_word,
                               Rep (Seq (Cls is_space) long_word) 0 1])"
    by (simp only: fullText_pattern_def RegExp_def regexp.simps lang_seqs_bounded)
  from lang_seqs_4 [OF this] obtain w x u v where n: "n = w @ x @ u @ v"
    and w: "w \<in> lang False long_word" and x: "x \<in> lang False (Cls is_space)"
    and u: "u \<in> lang False long_word"
    and v: "v \<in> lang False (Rep (Seq (Cls is_space) long_word) 0 1)"
    by blast
  from x obtain c where c: "x = [c]" "is_space c" by (auto simp: cls_match_def)
  from v have v': "v \<in> rx_rep_lang (lang False (Seq (Cls is_space) long_word)) 0 1"
    by (simp only: lang.simps)
  have c': "c = CHR '' ''" and "only_plain_spaces v"
    using assms(2) n c by (auto simp: only_plain_spaces_iff)
  from rx_rep_lang_words [of long_word, OF lang_long_word v' _ this(2)] obtain ws where
    ws: "v = spaced ws" "length ws \<le> 1" "list_all proper_word ws" by auto
  have "n = w @ spaced (u # ws)" using n c c' ws(1) by (simp add: spaced_def)
  moreover have "list_all proper_word (u # ws)" using ws lang_long_word [OF u] by simp
  ultimately show ?thesis
    using proper_name_spaced [OF lang_long_word [OF w], of "u # ws"] ws(2) by simp
qed

lemma split_where_nonempty: "split_where sep s \<noteq> []"
  by (induction s) (simp_all add: Let_def)

lemma split_where_chars:
  "c \<in> set s \<Longrightarrow> sep c \<or> (\<exists>w \<in> set (split_where sep s). c \<in> set w)"
proof (induction s)
  case Nil
  then show ?case by simp
next
  case (Cons x xs)
  obtain p ps where ps: "split_where sep xs = p # ps"
    using split_where_nonempty [of sep xs] by (cases "split_where sep xs") auto
  from Cons show ?case by (auto simp: Let_def ps)
qed

lemma proper_name_letters:
  assumes "proper_name n"
  shows "list_all (\<lambda>c. is_upper c \<or> is_lower c \<or> c = CHR '' '') n"
proof -
  have "is_upper c \<or> is_lower c \<or> c = CHR '' ''" if "c \<in> set n" for c
  proof -
    from split_where_chars [OF that, of "\<lambda>c. c = CHR '' ''"] consider "c = CHR '' ''"
      | w where "w \<in> set (split_where (\<lambda>c. c = CHR '' '') n)" "c \<in> set w"
      by blast
    then show ?thesis
    proof cases
      case 1
      then show ?thesis by simp
    next
      case 2
      with assms have "proper_word w" by (auto simp: proper_name_def Let_def list_all_iff)
      from proper_word_letters [OF this] 2(2) show ?thesis by (auto simp: list_all_iff)
    qed
  qed
  thus ?thesis by (simp add: list_all_iff)
qed

lemma only_plain_spaces_subset:
  "only_plain_spaces s \<Longrightarrow> set u \<subseteq> set s \<Longrightarrow> only_plain_spaces u"
  by (auto simp: only_plain_spaces_iff)

lemma cleanOCRText_plain: "only_plain_spaces (cleanOCRText t)"
  using cleanOCRText_chars by (auto simp: only_plain_spaces_iff)

lemma text_lines_plain:
  assumes "line \<in> set (text_lines (cleanOCRText t))"
  shows "only_plain_spaces line"
proof -
  have "split_where (\<lambda>c. c = newline) (cleanOCRText t) = [cleanOCRText t]"
    using cleanOCRText_no_newline by (intro split_where_absent) blast
  with assms have "line = trim (cleanOCRText t)"
    by (auto simp: text_lines_def split: if_splits)
  thus ?thesis using only_plain_spaces_subset [OF cleanOCRText_plain set_trim] by simp
qed

lemma truthy_Some: "truthy x = Some g \<Longrightarrow> x = Some g"
  by (cases x) (auto split: if_splits)

lemma match_1_subset:
  assumes "match_1 (str_match re s) = Some g"
  shows "set g \<subseteq> set s"
proof (cases "global re")
  case True
  let ?ms = "map fst (rx_scan (ignoreCase re) (source re) 0 None s)"
  have "str_match re s = NoMatch \<or> str_match re s = All ?ms"
    using True by (auto simp: str_match_def split: list.splits)
  with assms have "length ?ms > 1" "g = ?ms ! 1" by (auto split: if_splits)
  hence "g \<in> set ?ms" using nth_mem by blast
  then obtain cap where "(g, cap) \<in> set (rx_scan (ignoreCase re) (source re) 0 None s)"
    by auto
  from rx_scan_mem [OF this] show ?thesis by auto
next
  case False
  hence sm: "str_match re s =
      (case rx_exec (ignoreCase re) (source re) None s of
         None \<Rightarrow> NoMatch | Some (m, cap) \<Rightarrow> First m cap)"
    by (simp add: str_match_def)
  show ?thesis
  proof (cases "rx_exec (ignoreCase re) (source re) None s")
    case None
    with assms sm show ?thesis by simp
  next
    case (Some mc)
    obtain m cap where mc: "mc = (m, cap)" by (cases mc)
    from assms sm Some mc have "truthy cap = Some g" by simp
    hence "cap = Some g" by (rule truthy_Some)
    with Some mc have "rx_exec (ignoreCase re) (source re) None s = Some (m, Some g)" by simp
    from rx_exec_Some [OF this] obtain sk rest' p where s: "s = sk @ m @ rest'"
      and "match_at (ignoreCase re) (source re) p m (Some g) rest'"
      by blast
    from match_at_cap [OF this(2)] s show ?thesis by auto
  qed
qed

lemma name_of_match_shape:
  assumes "name_of_match line re = Some n" and "only_plain_spaces line"
  shows "proper_name n \<and> length n \<le> 35"
proof -
  from assms(1) obtain g where g: "match_1 (str_match re line) = Some g" and n: "n = trim g"
    and len: "length n \<le> 35"
    and test: "rx_test False (seqs (Bol # [name_words 1 3] @ [Eol])) n"
    by (auto simp: name_of_match_def Let_def split: option.splits if_splits)
  from rx_test_whole [OF test] have "n \<in> lang False (name_words 1 3)" by (simp add: seqs_def)
  moreover have "set n \<subseteq> set line" using match_1_subset [OF g] set_trim [of g] n by blast
  hence "only_plain_spaces n" using assms(2) only_plain_spaces_subset by blast
  ultimately show ?thesis using lang_name_words len by blast
qed

lemma name_of_line_shape:
  assumes "name_of_line line = Some n" and "only_plain_spaces line"
  shows "proper_name n \<and> length n \<le> 35"
proof -
  from assms(1) have "first_some (name_of_match line) patterns_name = Some n"
    by (auto simp: name_of_line_def Let_def split: if_splits)
  from first_some_Some [OF this] obtain re where "name_of_match line re = Some n" by blast
  from name_of_match_shape [OF this assms(2)] show ?thesis .
qed

lemma name_of_fullText_shape:
  assumes "name_of_fullText (cleanOCRText t) = Some n"
  shows "proper_name n \<and> length n \<le> 35"
proof -
  let ?full = "replaceAll (Cls (\<lambda>c. c = newline)) '' '' (cleanOCRText t)"
  let ?ms = "case str_match fullText_pattern ?full of All ms \<Rightarrow> ms | _ \<Rightarrow> []"
  have plain: "only_plain_spaces ?full"
    using cleanOCRText_plain [of t] by (auto simp: only_plain_spaces_iff replaceAll_subst)
  from assms have "first_some
      (\<lambda>nameMatch. if \<not> is_skipped (toLowerCase nameMatch) \<and> length nameMatch \<ge> 4
                        \<and> length nameMatch \<le> 35 then Some nameMatch else None) ?ms = Some n"
    by (simp add: name_of_fullText_def Let_def)
  from first_some_Some [OF this] have mem: "n \<in> set ?ms" and len: "length n \<le> 35"
    by (auto split: if_splits)
  from mem have "n \<in> fst ` set (rx_scan False (source fullText_pattern) 0 None ?full)"
    by (auto simp: str_match_def fullText_pattern_def RegExp_def
          split: match_result.splits if_splits list.splits)
  then obtain cap where "(n, cap) \<in> set (rx_scan False (source fullText_pattern) 0 None ?full)"
    by auto
  from rx_scan_mem [OF this] obtain sk rest' p where full: "?full = sk @ n @ rest'"
    and at: "match_at False (source fullText_pattern) p n cap rest'"
    by blast
  have "set n \<subseteq> set ?full" by (subst full) auto
  hence "only_plain_spaces n" using plain only_plain_spaces_subset by blast
  with lang_fullText_pattern [OF match_at_lang [OF at]] len show ?thesis by blast
qed

section \<open>Facts about the number fields\<close>



































section \<open>The comparators\<close>

text \<open>
  C1, as the code has it. \<open>compareFields\<close> accepts containment only when one of the two
  raw texts contains a space; without a space in either, the normalized texts must be
  equal. For non-empty texts the comparator is true exactly when the normalized texts are
  equal, or one of the raw texts contains a space and the rule of the specification
  (equal, or one a substring of the other) holds.
\<close>

theorem compareFields_generic_text:
  assumes "extracted \<noteq> []" and "entered \<noteq> []"
  shows "compareFields (Some extracted) entered
         = (lower_alnum extracted = lower_alnum entered
            \<or> ((CHR '' '' \<in> set extracted \<or> CHR '' '' \<in> set entered)
                \<and> generic_text_rule extracted entered))"
  using assms
  by (auto simp: compareFields_def Let_def includes_str_sublist sublist_space
        normalizeText_lower_alnum generic_text_rule_def)

theorem compareFields_generic_text_witness:
  "''Ravi Kumar'' \<noteq> [] \<and> ''ravi kumar sharma'' \<noteq> []
   \<and> compareFields (Some ''Ravi Kumar'') ''ravi kumar sharma''"
proof -
  have rule: "generic_text_rule ''Ravi Kumar'' ''ravi kumar sharma''"
    by code_simp
  have "compareFields (Some ''Ravi Kumar'') ''ravi kumar sharma''
        = (lower_alnum ''Ravi Kumar'' = lower_alnum ''ravi kumar sharma''
           \<or> ((CHR '' '' \<in> set ''Ravi Kumar'' \<or> CHR '' '' \<in> set ''ravi kumar sharma'')
               \<and> generic_text_rule ''Ravi Kumar'' ''ravi kumar sharma''))"
    by (rule compareFields_generic_text) simp_all
  with rule show ?thesis by simp
qed

text \<open>
  C1, as the claim states it, fails where neither raw text contains a space: the ID number
  \<open>123412341234\<close> against the entry \<open>1234\<close> satisfies the rule of the specification (the
  entry is a substring), and \<open>compareFields\<close> returns false.
\<close>

theorem compareFields_no_space_counterexample:
  "''123412341234'' \<noteq> [] \<and> ''1234'' \<noteq> []
   \<and> generic_text_rule ''123412341234'' ''1234''
   \<and> \<not> compareFields (Some ''123412341234'') ''1234''"
  by code_simp

text \<open>
  C4. For non-empty texts the date comparator is true exactly when the two texts are
  equal after every character that is not a digit is removed.
\<close>

theorem compareDates_exact:
  "extracted \<noteq> [] \<Longrightarrow> entered \<noteq> [] \<Longrightarrow>
   compareDates (Some extracted) entered = (filter is_digit extracted = filter is_digit entered)"
  by (simp add: compareDates_def normalizeDate_def replaceAll_strip Let_def)

theorem compareDates_exact_witness:
  "''01/02/2000'' \<noteq> [] \<and> ''02/01/2000'' \<noteq> []
   \<and> filter is_digit ''01/02/2000'' = ''01022000''
   \<and> filter is_digit ''02/01/2000'' = ''02012000''
   \<and> compareDates (Some ''01/02/2000'') ''02/01/2000'' = False"
proof -
  have a: "filter is_digit ''01/02/2000'' = ''01022000''"
    and b: "filter is_digit ''02/01/2000'' = ''02012000''"
    by (simp_all add: is_digit_def)
  have "compareDates (Some ''01/02/2000'') ''02/01/2000''
        = (filter is_digit ''01/02/2000'' = filter is_digit ''02/01/2000'')"
    by (rule compareDates_exact) simp_all
  thus ?thesis unfolding a b by simp
qed

text \<open>
  A phone entry without any digit matches every extracted phone number: it normalizes to
  the empty text, and the empty text is contained in every text.
\<close>

lemma comparePhones_no_digit:
  assumes "extracted \<noteq> []" and "entered \<noteq> []" and "filter is_digit entered = []"
  shows "comparePhones (Some extracted) entered"
  using assms
  by (simp add: comparePhones_def normalizePhone_def replaceAll_strip Let_def
        includes_str_sublist)

text \<open>
  C5, at an input where the code departs from the claim: the extracted phone number
  \<open>9876543210\<close> against the entry \<open>abc\<close>, which has no digit. The entry normalizes to
  the empty text and the comparator is true; by \<open>comparePhones_no_digit\<close> it is true for
  every such pair.
\<close>

theorem comparePhones_no_digit_entry:
  "normalizePhone ''abc'' = [] \<and> comparePhones (Some ''9876543210'') ''abc'' = True"
  by code_simp

text \<open>
  C6. No comparator matches when the extracted value is absent, and none matches when
  the entered value is the empty text, whatever the other side is.
\<close>

theorem compare_missing:
  "compareFields None x = False \<and> compareDates None x = False \<and> comparePhones None x = False
   \<and> compareFields y [] = False \<and> compareDates y [] = False \<and> comparePhones y [] = False"
  by (simp add: compareFields_def compareDates_def comparePhones_def split: option.splits)

text \<open>
  C7. The comparator of the name and the ID number gives the same answer when its two
  texts are exchanged.
\<close>

theorem compareFields_symmetric: "compareFields (Some a) b = compareFields (Some b) a"
  by (auto simp: compareFields_def Let_def)

section \<open>The verdict\<close>

text \<open>
  C2. The overall flag that \<open>handleVerify\<close> sets is true exactly when three or four of
  the four field flags are true, and false exactly when none, one or two are. It is
  computed from the four flags alone: the fifth value that \<open>Object.values\<close> lists, the
  overall flag itself, is cut off by the index test, and setting it changes no field flag.
\<close>

theorem overall_threshold:
  "overall (set_overall r) = (flag_count r \<in> {3, 4})
   \<and> (overall (set_overall r) = False) = (flag_count r \<in> {0, 1, 2})
   \<and> flag_count (set_overall r) = flag_count r
   \<and> overall (handleVerify e f) = (flag_count (handleVerify e f) \<in> {3, 4})"
  by (cases r; cases "VerificationResults.name r"; cases "VerificationResults.dateOfBirth r";
      cases "VerificationResults.idNumber r"; cases "VerificationResults.phoneNumber r")
     (simp_all add: set_overall_def handleVerify_def matchCount_flag_count flag_count_def)

section \<open>Cleaning\<close>

text \<open>
  C3, at an input where the code departs from the claim: an OCR text of three non-empty
  lines. The first replacement of \<open>cleanOCRText\<close> turns every run of white space,
  line breaks included, into one space, so no line break is left for the later
  replacement or for \<open>split\<close>, and the line view of \<open>extractDataFromText\<close> has one
  element. By \<open>text_lines_single\<close> it never has more than one.
\<close>

theorem text_lines_three_lines:
  "text_lines
     (cleanOCRText (''Ravi Kumar'' @ [newline] @ ''15/08/1990'' @ [newline] @ ''1234 5678 9012''))
   = [''Ravi Kumar 15/08/1990 1234 5678 9012'']"
  by code_simp

section \<open>Field extraction\<close>

text \<open>
  The third pattern of the date of birth has no \<open>g\<close> flag, and \<open>matchAll\<close> throws for
  it. The loop reaches it whenever the first two patterns give no accepted date, so a run
  of \<open>extractDataFromText\<close> that returns has found a date of birth with one of them; a
  text without such a date ends in the exception.
\<close>

lemma pattern_loop_Cons_None:
  assumes "pattern_loop body (re # ps) t = Inr None"
  shows "global re \<and> pattern_loop body ps t = Inr None"
proof (cases "matchAll re t")
  case (Inl e)
  with assms show ?thesis by simp
next
  case (Inr ms)
  hence "global re" by (auto simp: matchAll_def split: if_splits)
  moreover from assms Inr have "pattern_loop body ps t = Inr None"
    by (cases "first_some body ms") simp_all
  ultimately show ?thesis ..
qed

lemma pattern_loop_third_not_global:
  assumes "pattern_loop body (re1 # re2 # re3 # ps) t = Inr r" and "\<not> global re3"
  shows "r \<noteq> None"
proof
  assume "r = None"
  with assms(1) have "pattern_loop body (re1 # re2 # re3 # ps) t = Inr None" by simp
  hence "pattern_loop body (re2 # re3 # ps) t = Inr None" by (rule pattern_loop_Cons_None [THEN conjunct2])
  hence "pattern_loop body (re3 # ps) t = Inr None" by (rule pattern_loop_Cons_None [THEN conjunct2])
  hence "global re3" by (rule pattern_loop_Cons_None [THEN conjunct1])
  with assms(2) show False by simp
qed

lemma extractDataFromText_returns_date:
  assumes "extractDataFromText text = Inr d"
  shows "ExtractedData.dateOfBirth d \<noteq> None"
proof -
  from assms obtain r where
    r: "pattern_loop date_of_match patterns_dateOfBirth (cleanOCRText text) = Inr r"
    and d: "ExtractedData.dateOfBirth d = r"
    by (auto simp: extractDataFromText_def Let_def split: sum.splits)
  from r have "r \<noteq> None"
    unfolding patterns_dateOfBirth_def
    by (rule pattern_loop_third_not_global) (simp add: RegExp_def)
  with d show ?thesis by simp
qed

lemma extractDataFromText_throws: "extractDataFromText ''Ravi Kumar 1234 5678 9012'' = Inl TypeError"
  by code_simp





text \<open>
  C10. Whenever \<open>extractDataFromText\<close> returns and its result has a name, the name
  consists of 2 to 4 words separated by single spaces, each word an uppercase letter
  followed by one or more lowercase letters, so every character is a letter or a space;
  and the name has at most 35 code units. Both ways of finding a name keep this: a
  candidate of the pass over the lines must pass the strict pattern and the length test
  (\<open>name_of_line_shape\<close>), and a match of the fallback has two or three words of the
  pattern and must pass the length test (\<open>name_of_fullText_shape\<close>). The separators are
  plain spaces because the cleaned text has no other white space.
\<close>

theorem extracted_name_shape:
  assumes "extractDataFromText text = Inr d" and "ExtractedData.name d = Some n"
  shows "proper_name n \<and> length n \<le> 35
         \<and> list_all (\<lambda>c. is_upper c \<or> is_lower c \<or> c = CHR '' '') n"
proof -
  from assms have "extract_name (cleanOCRText text) = Some n"
    by (auto simp: extractDataFromText_def Let_def split: sum.splits)
  then consider
    (lines) "first_some name_of_line (text_lines (cleanOCRText text)) = Some n"
    | (full) "name_of_fullText (cleanOCRText text) = Some n"
    by (auto simp: extract_name_def split: option.splits)
  then have "proper_name n \<and> length n \<le> 35"
  proof cases
    case lines
    from first_some_Some [OF this] obtain line where
      "line \<in> set (text_lines (cleanOCRText text))" "name_of_line line = Some n" by blast
    from name_of_line_shape [OF this(2) text_lines_plain [OF this(1)]] show ?thesis .
  next
    case full
    from name_of_fullText_shape [OF this] show ?thesis .
  qed
  with proper_name_letters show ?thesis by blast
qed

theorem extracted_name_shape_witness:
  "extractDataFromText ''Ravi Kumar 15/08/1990''
     = Inr \<lparr>ExtractedData.name = Some ''Ravi Kumar'',
            ExtractedData.dateOfBirth = Some ''15/08/1990'',
            ExtractedData.idNumber = None, ExtractedData.phoneNumber = None\<rparr>
   \<and> proper_name ''Ravi Kumar'' \<and> length ''Ravi Kumar'' \<le> 35"
proof -
  let ?d = "\<lparr>ExtractedData.name = Some ''Ravi Kumar'',
            ExtractedData.dateOfBirth = Some ''15/08/1990'',
            ExtractedData.idNumber = None, ExtractedData.phoneNumber = None\<rparr>"
  have e: "extractDataFromText ''Ravi Kumar 15/08/1990'' = Inr ?d"
    by code_simp
  have i: "ExtractedData.name ?d = Some ''Ravi Kumar''" by simp
  from extracted_name_shape [OF e i] e show ?thesis by blast
qed

end
